theory Spec2Isabelle
  imports Main "HOL-Library.Log_Nat" "HOL-Library.Word"
begin

section \<open>Wire data and observable effects\<close>

text \<open>
  The session of \<^verbatim>\<open>zen.js\<close> (class \<^verbatim>\<open>WhisperSTTSession\<close>) is modelled on its Node branch
  (\<^verbatim>\<open>typeof window === 'undefined'\<close>): the emitter is Node's \<^verbatim>\<open>EventEmitter\<close> and the
  transport is a \<^verbatim>\<open>ws\<close> socket. Text is a \<open>string\<close> of characters with code points below
  256. Calls made on the transport and on the emitter are recorded, in order, in the
  field \<open>effects\<close> of the session, so that a statement can speak about what was sent and
  emitted. \<^verbatim>\<open>console.log\<close> output and the wall-clock \<^verbatim>\<open>timestamp\<close> of an event are not
  modelled.
\<close>

type_synonym byte = "8 word"

record segment =
  seg_text :: "string option"
  completed :: bool
  start :: "rat option"
  seg_end :: "rat option"

text \<open>
  An inbound frame after \<^verbatim>\<open>JSON.parse\<close>. A field that is absent is \<open>None\<close>. The fields
  \<^verbatim>\<open>message\<close> and \<^verbatim>\<open>status\<close> are only ever compared with \<^verbatim>\<open>===\<close> against string
  constants.
\<close>

record server_msg =
  message :: "string option"
  status :: "string option"
  segments :: "segment list option"
  language :: "string option"

datatype error =
    ConnectionTimeout
  | WebSocketClosed nat
  | TypeError
  | ERR_OUT_OF_RANGE
  | External string

record transcription =
  t_text :: string
  t_confidence :: rat
  t_sessionId :: string
  t_start :: "rat option"
  t_end :: "rat option"

datatype event =
    Transcription transcription
  | ErrorEvent error
  | CloseEvent nat string

record config =
  uid :: string
  cfg_language :: string
  task :: string
  cfg_model :: string
  use_vad :: bool

datatype payload =
    ConfigFrame config
  | AudioFrame "rat list"
  | EndOfAudio

datatype effect =
    Emit event
  | Send payload
  | CloseSocket
  | RemoveAllListeners

datatype ready_state = CONNECTING | OPEN | CLOSING | CLOSED

datatype timer = Unset | Armed | Cleared | Fired

datatype promise = NotCreated | Pending | Resolved | Rejected error

datatype outcome = Returned bool | Threw error

text \<open>
  The session object. \<open>ws\<close> is \<open>None\<close> for \<^verbatim>\<open>null\<close> and otherwise holds the socket's
  \<^verbatim>\<open>readyState\<close>. \<open>errorListeners\<close> says whether a listener for \<^verbatim>\<open>'error'\<close> is registered
  on the session. \<open>timeout\<close> and \<open>connecting\<close> are the timer and the promise that
  \<^verbatim>\<open>initialize\<close> creates; \<open>initResult\<close> is how the call of \<^verbatim>\<open>initialize\<close> ended, \<open>None\<close>
  while it is pending. \<open>uncaught\<close> collects the exceptions that escaped an event handler.
\<close>

record session =
  model :: string
  sessionId :: string
  ws :: "ready_state option"
  isRunning :: bool
  serverReady :: bool
  emittedCompletedCount :: nat
  lastEmittedText :: string
  errorListeners :: bool
  timeout :: timer
  connecting :: promise
  initResult :: "outcome option"
  effects :: "effect list"
  uncaught :: "error list"

text \<open>
  What the transport does when it is called, for one call of the session's code:
  \<open>sendThrows\<close> and \<open>closeThrows\<close> are the exceptions \<^verbatim>\<open>ws.send\<close> and \<^verbatim>\<open>ws.close\<close> raise
  (\<open>None\<close>: they return), \<open>fromBase64\<close> is \<^verbatim>\<open>Buffer.from(_, 'base64')\<close>.
\<close>

record env =
  sendThrows :: "error option"
  closeThrows :: "error option"
  fromBase64 :: "string \<Rightarrow> byte list option"

definition new_session :: "string \<Rightarrow> string \<Rightarrow> bool \<Rightarrow> session" where
  "new_session m sid listening =
     \<lparr> model = m, sessionId = sid, ws = None, isRunning = False, serverReady = False,
       emittedCompletedCount = 0, lastEmittedText = [], errorListeners = listening,
       timeout = Unset, connecting = NotCreated, initResult = None,
       effects = [], uncaught = [] \<rparr>"

definition record_effect :: "session \<Rightarrow> effect \<Rightarrow> session" where
  "record_effect s x = s\<lparr>effects := effects s @ [x]\<rparr>"

text \<open>
  \<^verbatim>\<open>emit\<close> for \<^verbatim>\<open>'transcription'\<close> and \<^verbatim>\<open>'close'\<close>; \<open>emit_error\<close> for \<^verbatim>\<open>'error'\<close>, which Node
  throws back at the caller when no listener is registered.
\<close>

definition emit :: "session \<Rightarrow> event \<Rightarrow> session" where
  "emit s ev = record_effect s (Emit ev)"

definition emit_error :: "session \<Rightarrow> error \<Rightarrow> session \<times> error option" where
  "emit_error s e =
     (if errorListeners s then (record_effect s (Emit (ErrorEvent e)), None) else (s, Some e))"

definition ws_send :: "env \<Rightarrow> session \<Rightarrow> payload \<Rightarrow> session \<times> error option" where
  "ws_send en s p = (record_effect s (Send p), sendThrows en)"

definition ws_close :: "env \<Rightarrow> session \<Rightarrow> session \<times> error option" where
  "ws_close en s = (record_effect s CloseSocket, closeThrows en)"

definition removeAllListeners :: "session \<Rightarrow> session" where
  "removeAllListeners s = record_effect (s\<lparr>errorListeners := False\<rparr>) RemoveAllListeners"

section \<open>The resampler\<close>

text \<open>
  A JavaScript number is an IEEE 754 binary64 value. The finite ones are rational, so a
  number is a \<open>rat\<close> and every arithmetic operation of the source is the exact operation
  followed by rounding to the nearest representable value, ties to even: \<open>fl\<close> for
  binary64, \<open>f32\<close> for the binary32 elements of a \<^verbatim>\<open>Float32Array\<close>. No value of the resampler
  reaches the overflow threshold, which is therefore left out; a zero result is the
  rational 0.
\<close>

definition ilog2 :: "rat \<Rightarrow> int" where
  "ilog2 x =
     (let (p, q) = quotient_of x; d = bitlen p - bitlen q
      in if 2 powi d \<le> x then d else d - 1)"

definition round_ties_even :: "rat \<Rightarrow> int" where
  "round_ties_even y =
     (let n = \<lfloor>y\<rfloor>; d = y - of_int n
      in if d < 1 / 2 then n else if 1 / 2 < d then n + 1 else if even n then n else n + 1)"

definition round_binary :: "int \<Rightarrow> int \<Rightarrow> rat \<Rightarrow> rat" where
  "round_binary p emin x =
     (if x = 0 then 0
      else (let e = max (ilog2 \<bar>x\<bar>) emin; u = 2 powi (e - p + 1)
            in of_int (round_ties_even (x / u)) * u))"

definition fl :: "rat \<Rightarrow> rat" where
  "fl = round_binary 53 (- 1022)"

definition f32 :: "rat \<Rightarrow> rat" where
  "f32 = round_binary 24 (- 126)"

definition INPUT_SAMPLE_RATE :: rat where
  "INPUT_SAMPLE_RATE = 24000"

definition TARGET_SAMPLE_RATE :: rat where
  "TARGET_SAMPLE_RATE = 16000"

text \<open>
  \<^verbatim>\<open>Buffer.readInt16LE\<close>: the two bytes at an integer offset inside the buffer, read as a
  little-endian two's complement value; any other offset raises \<^verbatim>\<open>ERR_OUT_OF_RANGE\<close>.
\<close>

definition readInt16LE :: "byte list \<Rightarrow> rat \<Rightarrow> error + int" where
  "readInt16LE buf offset =
     (if offset = of_int \<lfloor>offset\<rfloor> \<and> 0 \<le> offset \<and> nat \<lfloor>offset\<rfloor> + 1 < length buf
      then (let lo = uint (buf ! nat \<lfloor>offset\<rfloor>);
                hi = uint (buf ! (nat \<lfloor>offset\<rfloor> + 1));
                val = lo + hi * 2 ^ 8
            in Inr (if val < 2 ^ 15 then val else val - 2 ^ 16))
      else Inl ERR_OUT_OF_RANGE)"

text \<open>The body of the loop: the value stored at index \<open>i\<close> of the output array.\<close>

definition interpolate :: "byte list \<Rightarrow> rat \<Rightarrow> rat \<Rightarrow> nat \<Rightarrow> error + rat" where
  "interpolate pcmInt16Buffer numInputSamples ratio i =
     (let srcIdx = fl (of_nat i / ratio);
          idx0 = of_int \<lfloor>srcIdx\<rfloor>;
          idx1 = min (fl (idx0 + 1)) (fl (numInputSamples - 1));
          frac = fl (srcIdx - idx0)
      in case readInt16LE pcmInt16Buffer (fl (idx0 * 2)) of
           Inl e \<Rightarrow> Inl e
         | Inr a \<Rightarrow>
             (case readInt16LE pcmInt16Buffer (fl (idx1 * 2)) of
                Inl e \<Rightarrow> Inl e
              | Inr b \<Rightarrow>
                  (let s0 = fl (of_int a / 32768); s1 = fl (of_int b / 32768)
                   in Inr (f32 (fl (s0 + fl (fl (s1 - s0) * frac)))))))"

function resample_loop ::
  "byte list \<Rightarrow> rat \<Rightarrow> rat \<Rightarrow> nat \<Rightarrow> nat \<Rightarrow> rat list \<Rightarrow> error + rat list" where
  "resample_loop pcmInt16Buffer numInputSamples ratio numOutputSamples i float32 =
     (if i < numOutputSamples
      then (case interpolate pcmInt16Buffer numInputSamples ratio i of
              Inl e \<Rightarrow> Inl e
            | Inr v \<Rightarrow>
                resample_loop pcmInt16Buffer numInputSamples ratio numOutputSamples (Suc i)
                  (float32[i := v]))
      else Inr float32)"
  by pat_completeness auto
termination
  by (relation "measure (\<lambda>(b, n, r, m, i, f). m - i)") auto

declare resample_loop.simps [simp del]

text \<open>
  The result is the content of the \<^verbatim>\<open>Float32Array\<close>, one rational per element; the
  returned \<^verbatim>\<open>Buffer\<close> is a view of the same memory, four bytes per element.
\<close>

definition resampleAndConvertToFloat32 :: "byte list \<Rightarrow> error + rat list" where
  "resampleAndConvertToFloat32 pcmInt16Buffer =
     (let numInputSamples = fl (of_nat (length pcmInt16Buffer) / 2);
          ratio = fl (TARGET_SAMPLE_RATE / INPUT_SAMPLE_RATE);
          numOutputSamples = nat \<lfloor>fl (numInputSamples * ratio)\<rfloor>;
          float32 = replicate numOutputSamples 0
      in resample_loop pcmInt16Buffer numInputSamples ratio numOutputSamples 0 float32)"

section \<open>close\<close>

text \<open>The body of the \<^verbatim>\<open>try\<close> block of \<^verbatim>\<open>close\<close>: the state it reaches and what it throws.\<close>

definition close_try :: "env \<Rightarrow> session \<Rightarrow> ready_state \<Rightarrow> session \<times> error option" where
  "close_try en s rs =
     (case (if rs = OPEN then ws_send en s EndOfAudio else (s, None)) of
        (s1, Some e) \<Rightarrow> (s1, Some e)
      | (s1, None) \<Rightarrow> ws_close en s1)"

definition close :: "env \<Rightarrow> session \<Rightarrow> session \<times> error option" where
  "close en s =
     (let s1 = s\<lparr>isRunning := False\<rparr>;
          s2 = (case ws s1 of
                  None \<Rightarrow> s1
                | Some rs \<Rightarrow> (fst (close_try en s1 rs))\<lparr>ws := None\<rparr>)
      in (removeAllListeners s2, None))"

section \<open>The segment reconciler\<close>

definition is_ws :: "char \<Rightarrow> bool" where
  "is_ws c = ((of_char c :: nat) \<in> {9, 10, 11, 12, 13, 32, 160})"

definition trim :: "string \<Rightarrow> string" where
  "trim t = rev (dropWhile is_ws (rev (dropWhile is_ws t)))"

fun emit_new :: "session \<Rightarrow> segment list \<Rightarrow> session" where
  "emit_new s [] = s"
| "emit_new s (seg # rest) =
     (let text = trim (case seg_text seg of None \<Rightarrow> [] | Some t \<Rightarrow> t) in
      if text \<noteq> [] \<and> text \<noteq> lastEmittedText s
      then emit_new
             (emit (s\<lparr>lastEmittedText := text\<rparr>)
                (Transcription \<lparr> t_text = text, t_confidence = 1, t_sessionId = sessionId s,
                   t_start = start seg, t_end = seg_end seg \<rparr>))
             rest
      else emit_new s rest)"

definition reconcile :: "session \<Rightarrow> segment list \<Rightarrow> session" where
  "reconcile s segs =
     (let completedSegments = filter completed segs;
          newCompleted = drop (emittedCompletedCount s) completedSegments;
          s1 = emit_new s newCompleted
      in s1\<lparr>emittedCompletedCount := length completedSegments\<rparr>)"

definition handleServerMessage :: "env \<Rightarrow> session \<Rightarrow> server_msg \<Rightarrow> session" where
  "handleServerMessage en s msg =
     (if message msg = Some ''SERVER_READY'' then s
      else if status msg = Some ''WAIT'' then s
      else if message msg = Some ''DISCONNECT'' then fst (close en s)
      else (case segments msg of
              None \<Rightarrow> s
            | Some segs \<Rightarrow> if length segs > 0 then reconcile s segs else s))"

section \<open>Connection lifecycle\<close>

text \<open>
  The backend service \<^verbatim>\<open>whisperService\<close> is not part of the session: \<open>liveServerRunning\<close>
  is what \<^verbatim>\<open>isLiveServerRunning()\<close> returns, \<open>startLiveServer\<close> is what awaiting
  \<^verbatim>\<open>startLiveServer()\<close> throws and \<open>socketThrows\<close> is what \<^verbatim>\<open>new WebSocket(url)\<close> throws
  (\<open>None\<close>: they return).
\<close>

record service =
  liveServerRunning :: bool
  startLiveServer :: "error option"
  socketThrows :: "error option"

text \<open>
  The lookup \<^verbatim>\<open>map[model] || 'small'\<close> on the four keys of the table. A model id that
  names a property inherited from \<^verbatim>\<open>Object.prototype\<close> is outside the model.
\<close>

definition mapModelName :: "string \<Rightarrow> string" where
  "mapModelName m =
     (if m = ''whisper-tiny'' then ''tiny''
      else if m = ''whisper-base'' then ''base''
      else if m = ''whisper-small'' then ''small''
      else if m = ''whisper-medium'' then ''medium''
      else ''small'')"

definition clearTimeout :: "session \<Rightarrow> session" where
  "clearTimeout s = (if timeout s = Armed then s\<lparr>timeout := Cleared\<rparr> else s)"

text \<open>
  The \<^verbatim>\<open>catch\<close> block of \<^verbatim>\<open>initialize\<close>: it emits \<^verbatim>\<open>'error'\<close> and returns \<^verbatim>\<open>false\<close>; when the
  emit throws, the call of \<^verbatim>\<open>initialize\<close> ends with that exception.
\<close>

definition init_catch :: "session \<Rightarrow> error \<Rightarrow> session" where
  "init_catch s e =
     (case emit_error s e of
        (s1, None) \<Rightarrow> s1\<lparr>initResult := Some (Returned False)\<rparr>
      | (s1, Some x) \<Rightarrow> s1\<lparr>initResult := Some (Threw x)\<rparr>)"

text \<open>
  \<^verbatim>\<open>resolve\<close> and \<^verbatim>\<open>reject\<close> of the promise that \<^verbatim>\<open>initialize\<close> awaits. They settle it once;
  the continuation of the \<^verbatim>\<open>await\<close> runs when the promise settles, and every handler calls
  them as its last statement.
\<close>

definition resolve :: "session \<Rightarrow> session" where
  "resolve s =
     (if connecting s = Pending
      then s\<lparr>connecting := Resolved, initResult := Some (Returned True)\<rparr>
      else s)"

definition reject :: "session \<Rightarrow> error \<Rightarrow> session" where
  "reject s e =
     (if connecting s = Pending then init_catch (s\<lparr>connecting := Rejected e\<rparr>) e else s)"

text \<open>\<^verbatim>\<open>initialize\<close> up to the point where it awaits the promise.\<close>

definition initialize :: "service \<Rightarrow> session \<Rightarrow> session" where
  "initialize svc s =
     (case (if \<not> liveServerRunning svc then startLiveServer svc else None) of
        Some e \<Rightarrow> init_catch s e
      | None \<Rightarrow>
          (let s1 = s\<lparr>timeout := Armed, connecting := Pending, initResult := None\<rparr>
           in case socketThrows svc of
                Some e \<Rightarrow> reject s1 e
              | None \<Rightarrow> s1\<lparr>ws := Some CONNECTING\<rparr>))"

text \<open>The callback of \<^verbatim>\<open>setTimeout\<close>; it runs when the timer is still armed after 10 seconds.\<close>

definition on_timeout :: "session \<Rightarrow> session" where
  "on_timeout s =
     (if timeout s = Armed then reject (s\<lparr>timeout := Fired\<rparr>) ConnectionTimeout else s)"

definition on_open :: "env \<Rightarrow> session \<Rightarrow> session" where
  "on_open en s =
     (let s1 = clearTimeout s
      in case ws s1 of
           None \<Rightarrow> s1\<lparr>uncaught := uncaught s1 @ [TypeError]\<rparr>
         | Some rs \<Rightarrow>
             (case ws_send en s1
                     (ConfigFrame \<lparr> uid = sessionId s1, cfg_language = ''en'',
                        task = ''transcribe'', cfg_model = mapModelName (model s1),
                        use_vad = True \<rparr>) of
                (s2, None) \<Rightarrow> s2
              | (s2, Some e) \<Rightarrow> s2\<lparr>uncaught := uncaught s2 @ [e]\<rparr>))"

text \<open>
  The \<^verbatim>\<open>'message'\<close> handler; \<open>None\<close> is a frame that \<^verbatim>\<open>JSON.parse\<close> rejects. Its \<^verbatim>\<open>try\<close> block
  catches whatever the body throws.
\<close>

definition on_message :: "env \<Rightarrow> session \<Rightarrow> server_msg option \<Rightarrow> session" where
  "on_message en s data =
     (case data of
        None \<Rightarrow> s
      | Some msg \<Rightarrow>
          (let s1 = handleServerMessage en s msg
           in if message msg = Some ''SERVER_READY''
              then resolve (clearTimeout (s1\<lparr>isRunning := True, serverReady := True\<rparr>))
              else s1))"

definition on_error :: "session \<Rightarrow> error \<Rightarrow> session" where
  "on_error s err =
     (let s1 = clearTimeout s
      in case emit_error s1 err of
           (s2, Some x) \<Rightarrow> s2\<lparr>uncaught := uncaught s2 @ [x]\<rparr>
         | (s2, None) \<Rightarrow> if \<not> serverReady s2 then reject s2 err else s2)"

definition on_close :: "session \<Rightarrow> nat \<Rightarrow> string \<Rightarrow> session" where
  "on_close s code reason =
     (let s1 = clearTimeout s;
          s2 = s1\<lparr>isRunning := False, serverReady := False\<rparr>;
          s3 = emit s2 (CloseEvent code reason)
      in if \<not> serverReady s3 then reject s3 (WebSocketClosed code) else s3)"

section \<open>sendRealtimeInput\<close>

text \<open>
  The shapes of audio the caller passes: base64 text, an \<^verbatim>\<open>ArrayBuffer\<close>, a \<^verbatim>\<open>Buffer\<close>, or
  anything else, which \<^verbatim>\<open>Buffer.from\<close> converts or refuses with a \<^verbatim>\<open>TypeError\<close> (\<open>None\<close>).
\<close>

datatype audio_input =
    Base64Text string
  | ArrayBuffer "byte list"
  | Buffer "byte list"
  | Other "byte list option"

definition sendRealtimeInput :: "env \<Rightarrow> session \<Rightarrow> audio_input \<Rightarrow> session \<times> error option" where
  "sendRealtimeInput en s audioData =
     (if \<not> isRunning s \<or> ws s = None \<or> ws s \<noteq> Some OPEN then (s, None)
      else (case (case audioData of
                    Base64Text t \<Rightarrow> (case fromBase64 en t of None \<Rightarrow> Inr None | Some b \<Rightarrow> Inr (Some b))
                  | ArrayBuffer b \<Rightarrow> Inr (Some b)
                  | Buffer b \<Rightarrow> Inr (Some b)
                  | Other None \<Rightarrow> Inl TypeError
                  | Other (Some b) \<Rightarrow> Inr (Some b)) of
              Inl e \<Rightarrow> (s, Some e)
            | Inr None \<Rightarrow> (s, None)
            | Inr (Some buf) \<Rightarrow>
                if length buf = 0 then (s, None)
                else (case resampleAndConvertToFloat32 buf of
                        Inl e \<Rightarrow> (s, Some e)
                      | Inr float32Buf \<Rightarrow> (fst (ws_send en s (AudioFrame float32Buf)), None))))"

section \<open>Executions\<close>

text \<open>
  What happens to a session after \<^verbatim>\<open>initialize\<close> was called: the socket fires an event,
  the timer elapses, or the caller calls a method. The socket changes its own
  \<^verbatim>\<open>readyState\<close> before it fires an event. Each step comes with the transport's behaviour
  during that step.
\<close>

datatype action =
    WsOpen
  | WsMessage "server_msg option"
  | WsError error
  | WsClose nat string
  | TimerElapsed
  | CallSend audio_input
  | CallClose
  | CallOnError

definition socket_state :: "ready_state \<Rightarrow> session \<Rightarrow> session" where
  "socket_state rs s = (case ws s of None \<Rightarrow> s | Some r \<Rightarrow> s\<lparr>ws := Some rs\<rparr>)"

fun step :: "session \<Rightarrow> env \<times> action \<Rightarrow> session" where
  "step s (en, WsOpen) = on_open en (socket_state OPEN s)"
| "step s (en, WsMessage data) = on_message en s data"
| "step s (en, WsError err) = on_error (socket_state CLOSING s) err"
| "step s (en, WsClose code reason) = on_close (socket_state CLOSED s) code reason"
| "step s (en, TimerElapsed) = on_timeout s"
| "step s (en, CallSend audioData) = fst (sendRealtimeInput en s audioData)"
| "step s (en, CallClose) = fst (close en s)"
| "step s (en, CallOnError) = s\<lparr>errorListeners := True\<rparr>"

definition run :: "session \<Rightarrow> (env \<times> action) list \<Rightarrow> session" where
  "run s tr = foldl step s tr"

section \<open>Notions used in the statements\<close>

text \<open>The transcription events among the recorded effects, in the order of emission.\<close>

fun transcriptions :: "effect list \<Rightarrow> transcription list" where
  "transcriptions [] = []"
| "transcriptions (Emit (Transcription t) # xs) = t # transcriptions xs"
| "transcriptions (x # xs) = transcriptions xs"

text \<open>The message passes the three early returns of \<open>handleServerMessage\<close>.\<close>

definition reaches_reconciler :: "server_msg \<Rightarrow> bool" where
  "reaches_reconciler msg =
     (message msg \<noteq> Some ''SERVER_READY'' \<and> status msg \<noteq> Some ''WAIT''
      \<and> message msg \<noteq> Some ''DISCONNECT'')"

text \<open>A transport that never throws.\<close>

definition quiet :: env where
  "quiet = \<lparr> sendThrows = None, closeThrows = None, fromBase64 = (\<lambda>t. Some []) \<rparr>"

text \<open>The segments and the two messages of Scenario B.\<close>

definition completed_segment :: "string \<Rightarrow> rat \<Rightarrow> rat \<Rightarrow> segment" where
  "completed_segment t a b =
     \<lparr> seg_text = Some t, completed = True, start = Some a, seg_end = Some b \<rparr>"

definition segments_message :: "segment list \<Rightarrow> server_msg" where
  "segments_message segs =
     \<lparr> message = None, status = None, segments = Some segs, language = None \<rparr>"

definition scenario_B_first :: server_msg where
  "scenario_B_first = segments_message [completed_segment ''hi'' 0 1]"

definition scenario_B_second :: server_msg where
  "scenario_B_second =
     segments_message [completed_segment ''hi'' 0 1, completed_segment ''there'' 1 2]"

text \<open>The part of a session that the reconciler reads and writes.\<close>

definition reconciliation :: "session \<Rightarrow> nat \<times> string \<times> transcription list" where
  "reconciliation s = (emittedCompletedCount s, lastEmittedText s, transcriptions (effects s))"

text \<open>
  Consecutive emitted texts differ, and \<open>lastEmittedText\<close> is the text of the last emitted
  event.
\<close>

definition no_repeat :: "session \<Rightarrow> bool" where
  "no_repeat s =
     (distinct_adj (map t_text (transcriptions (effects s)))
      \<and> (transcriptions (effects s) \<noteq> []
           \<longrightarrow> lastEmittedText s = t_text (last (transcriptions (effects s)))))"

text \<open>The session before a trace and after each of its steps.\<close>

fun states :: "session \<Rightarrow> (env \<times> action) list \<Rightarrow> session list" where
  "states s [] = [s]"
| "states s (x # tr) = s # states (step s x) tr"

text \<open>
  For each message of a trace that reaches the reconciler with a non-empty segment list,
  the number of its completed segments.
\<close>

fun completed_counts :: "(env \<times> action) list \<Rightarrow> nat list" where
  "completed_counts [] = []"
| "completed_counts ((en, WsMessage (Some m)) # tr) =
     (case segments m of
        None \<Rightarrow> completed_counts tr
      | Some segs \<Rightarrow>
          if reaches_reconciler m \<and> segs \<noteq> []
          then length (filter completed segs) # completed_counts tr
          else completed_counts tr)"
| "completed_counts (x # tr) = completed_counts tr"




text \<open>A backend that is running, and a socket constructor that returns.\<close>

definition up :: service where
  "up = \<lparr> liveServerRunning = True, startLiveServer = None, socketThrows = None \<rparr>"


text \<open>The binary64 value of \<^verbatim>\<open>TARGET_SAMPLE_RATE / INPUT_SAMPLE_RATE\<close>, just below 2/3.\<close>

definition ratio_value :: rat where
  "ratio_value = 6004799503160661 / 9007199254740992"

section \<open>The reconciler: supporting lemmas\<close>

lemma transcriptions_append:
  "transcriptions (xs @ ys) = transcriptions xs @ transcriptions ys"
  by (induction xs rule: transcriptions.induct) simp_all

lemma close_transcriptions:
  "transcriptions (effects (fst (close en s))) = transcriptions (effects s)"
  by (simp add: close_def close_try_def removeAllListeners_def record_effect_def ws_send_def
      ws_close_def transcriptions_append Let_def split: option.splits prod.splits)

lemma close_reconciliation_state:
  "emittedCompletedCount (fst (close en s)) = emittedCompletedCount s"
  "lastEmittedText (fst (close en s)) = lastEmittedText s"
  by (simp_all add: close_def close_try_def removeAllListeners_def record_effect_def ws_send_def
      ws_close_def Let_def split: option.splits prod.splits)

lemma emit_new_count:
  "emittedCompletedCount (emit_new s segs) = emittedCompletedCount s"
  by (induction s segs rule: emit_new.induct) (simp_all add: Let_def emit_def record_effect_def)

lemma handle_count_reconciled:
  assumes "reaches_reconciler msg" and "segments msg = Some segs" and "segs \<noteq> []"
  shows "emittedCompletedCount (handleServerMessage en s msg) = length (filter completed segs)"
  using assms by (simp add: handleServerMessage_def reaches_reconciler_def reconcile_def Let_def)

lemma handle_count_other:
  assumes "\<not> (reaches_reconciler msg \<and> (\<exists>segs. segments msg = Some segs \<and> segs \<noteq> []))"
  shows "emittedCompletedCount (handleServerMessage en s msg) = emittedCompletedCount s"
  using assms
  by (auto simp add: handleServerMessage_def reaches_reconciler_def close_reconciliation_state
      split: option.splits)

lemma handle_same_list:
  assumes "reaches_reconciler m1" and "segments m1 = Some l1" and "segments m2 = Some l2"
    and "filter completed l2 = filter completed l1"
  shows "transcriptions (effects (handleServerMessage en2 (handleServerMessage en1 s m1) m2))
         = transcriptions (effects (handleServerMessage en1 s m1))"
proof (cases "l1 = []")
  case True
  with assms(4) have "filter completed l2 = []" by simp
  then show ?thesis
    using assms(3)
    by (simp add: handleServerMessage_def [of en2] close_transcriptions reconcile_def Let_def)
next
  case False
  then have "emittedCompletedCount (handleServerMessage en1 s m1) = length (filter completed l1)"
    using assms(1,2) by (rule handle_count_reconciled [rotated 2])
  then show ?thesis
    using assms(3,4)
    by (simp add: handleServerMessage_def [of en2] close_transcriptions reconcile_def Let_def)
qed

lemmas handler_defs =
  record_effect_def emit_def emit_error_def ws_send_def ws_close_def removeAllListeners_def
  close_try_def close_def clearTimeout_def init_catch_def resolve_def reject_def
  on_timeout_def on_open_def on_message_def on_error_def on_close_def socket_state_def
  sendRealtimeInput_def

lemma reconciliation_close: "reconciliation (fst (close en s)) = reconciliation s"
  by (simp add: reconciliation_def close_transcriptions close_reconciliation_state)

lemma reconciliation_on_open: "reconciliation (on_open en (socket_state rs s)) = reconciliation s"
  by (simp add: reconciliation_def handler_defs transcriptions_append Let_def
      split: option.splits)

lemma reconciliation_on_error: "reconciliation (on_error (socket_state rs s) e) = reconciliation s"
  by (simp add: reconciliation_def handler_defs transcriptions_append Let_def
      split: option.splits)

lemma reconciliation_on_close:
  "reconciliation (on_close (socket_state rs s) c r) = reconciliation s"
  by (simp add: reconciliation_def handler_defs transcriptions_append Let_def
      split: option.splits)

lemma reconciliation_on_timeout: "reconciliation (on_timeout s) = reconciliation s"
  by (simp add: reconciliation_def handler_defs transcriptions_append Let_def
      split: option.splits)

lemma reconciliation_send: "reconciliation (fst (sendRealtimeInput en s a)) = reconciliation s"
  by (simp add: reconciliation_def handler_defs transcriptions_append Let_def
      split: option.splits audio_input.splits sum.splits)

lemma reconciliation_on_message:
  "reconciliation (on_message en s (Some m)) = reconciliation (handleServerMessage en s m)"
  by (simp add: reconciliation_def on_message_def resolve_def clearTimeout_def Let_def)

lemma reconciliation_initialize: "reconciliation (initialize svc s) = reconciliation s"
  by (simp add: reconciliation_def initialize_def handler_defs transcriptions_append Let_def
      split: option.splits)

lemma reconciliation_step:
  "reconciliation (step s (en, a)) =
     (case a of WsMessage (Some m) \<Rightarrow> reconciliation (handleServerMessage en s m)
      | _ \<Rightarrow> reconciliation s)"
  by (cases a)
    (simp_all add: reconciliation_on_open reconciliation_on_error reconciliation_on_close
      reconciliation_on_timeout reconciliation_send reconciliation_close
      reconciliation_on_message split: option.splits,
     simp_all add: reconciliation_def on_message_def)

lemma no_repeat_cong: "reconciliation s' = reconciliation s \<Longrightarrow> no_repeat s' = no_repeat s"
  by (simp add: no_repeat_def reconciliation_def)

lemma no_repeat_emit_new: "no_repeat s \<Longrightarrow> no_repeat (emit_new s segs)"
proof (induction s segs rule: emit_new.induct)
  case (1 s)
  then show ?case by simp
next
  case (2 s seg rest)
  define tx where "tx = trim (case seg_text seg of None \<Rightarrow> [] | Some t \<Rightarrow> t)"
  show ?case
  proof (cases "tx \<noteq> [] \<and> tx \<noteq> lastEmittedText s")
    case True
    let ?s' = "emit (s\<lparr>lastEmittedText := tx\<rparr>)
                (Transcription \<lparr> t_text = tx, t_confidence = 1, t_sessionId = sessionId s,
                   t_start = start seg, t_end = seg_end seg \<rparr>)"
    have "no_repeat ?s'"
      using "2.prems" True
      by (auto simp add: no_repeat_def emit_def record_effect_def transcriptions_append
          distinct_adj_append_iff last_map)
    then have "no_repeat (emit_new ?s' rest)"
      using "2.IH"(1) True tx_def by simp
    then show ?thesis using True tx_def by (auto simp add: Let_def)
  next
    case False
    then have "no_repeat (emit_new s rest)"
      using "2.IH"(2) "2.prems" tx_def by simp
    then show ?thesis using False tx_def by (auto simp add: Let_def)
  qed
qed

lemma no_repeat_handle: "no_repeat s \<Longrightarrow> no_repeat (handleServerMessage en s m)"
proof -
  assume a: "no_repeat s"
  have r: "no_repeat (reconcile s segs)" for segs
    using no_repeat_emit_new [OF a, of "drop (emittedCompletedCount s) (filter completed segs)"]
    by (simp add: reconcile_def Let_def no_repeat_def)
  have c: "no_repeat (fst (close en s))"
    using a no_repeat_cong [OF reconciliation_close] by simp
  show ?thesis
    using a r c by (simp add: handleServerMessage_def split: option.splits)
qed

lemma no_repeat_step: "no_repeat s \<Longrightarrow> no_repeat (step s x)"
proof -
  assume a: "no_repeat s"
  obtain en ac where x: "x = (en, ac)" by (cases x)
  show ?thesis
  proof (cases "\<exists>m. ac = WsMessage (Some m)")
    case True
    then obtain m where m: "ac = WsMessage (Some m)" by blast
    have "reconciliation (step s x) = reconciliation (handleServerMessage en s m)"
      using reconciliation_step [of s en ac] x m by simp
    then show ?thesis using no_repeat_handle [OF a] no_repeat_cong by blast
  next
    case False
    then have "reconciliation (step s x) = reconciliation s"
      using reconciliation_step [of s en ac] x
      by (auto split: action.splits option.splits)
    then show ?thesis using a no_repeat_cong by blast
  qed
qed

lemma no_repeat_run: "no_repeat s \<Longrightarrow> no_repeat (run s tr)"
  unfolding run_def by (induction tr arbitrary: s) (simp_all add: no_repeat_step)

lemma no_repeat_start: "no_repeat (initialize svc (new_session mo sid li))"
proof -
  have "no_repeat (new_session mo sid li)"
    by (simp add: no_repeat_def new_session_def)
  then show ?thesis using no_repeat_cong [OF reconciliation_initialize] by simp
qed


lemma states_count:
  "emittedCompletedCount (step s (en, a)) =
     (case a of WsMessage (Some m) \<Rightarrow> emittedCompletedCount (handleServerMessage en s m)
      | _ \<Rightarrow> emittedCompletedCount s)"
  using reconciliation_step [of s en a]
  by (auto simp add: reconciliation_def split: action.splits option.splits)

lemma hd_states: "hd (states s tr) = s"
  by (cases tr) simp_all

lemma states_nonempty: "states s tr \<noteq> []"
  by (cases tr) simp_all

lemma sorted_history:
  "sorted (emittedCompletedCount s # completed_counts tr)
   \<Longrightarrow> sorted (map emittedCompletedCount (states s tr))"
proof (induction tr arbitrary: s)
  case Nil
  then show ?case by simp
next
  case (Cons x tr)
  obtain en a where x: "x = (en, a)" by (cases x)
  let ?s' = "step s x"
  have le: "emittedCompletedCount s \<le> emittedCompletedCount ?s'"
   and srt: "sorted (emittedCompletedCount ?s' # completed_counts tr)"
  proof -
    show "emittedCompletedCount s \<le> emittedCompletedCount ?s'"
      using Cons.prems x
      by (auto simp add: states_count handle_count_reconciled handle_count_other
          split: action.splits option.splits if_splits)
    show "sorted (emittedCompletedCount ?s' # completed_counts tr)"
      using Cons.prems x
      by (auto simp add: states_count handle_count_reconciled handle_count_other
          split: action.splits option.splits if_splits)
  qed
  have "sorted (map emittedCompletedCount (states ?s' tr))"
    using Cons.IH [OF srt] .
  moreover have "hd (map emittedCompletedCount (states ?s' tr)) = emittedCompletedCount ?s'"
    by (simp add: hd_map states_nonempty hd_states)
  ultimately have "sorted (emittedCompletedCount s # map emittedCompletedCount (states ?s' tr))"
    using le by (cases "states ?s' tr") (auto simp add: states_nonempty)
  then show ?case by simp
qed

section \<open>Lifecycle: supporting lemmas\<close>

lemma close_fields:
  "isRunning (fst (close en s)) = False"
  "ws (fst (close en s)) = None"
  "serverReady (fst (close en s)) = serverReady s"
  "timeout (fst (close en s)) = timeout s"
  "connecting (fst (close en s)) = connecting s"
  "initResult (fst (close en s)) = initResult s"
  "uncaught (fst (close en s)) = uncaught s"
  by (simp_all add: close_def close_try_def removeAllListeners_def record_effect_def ws_send_def
      ws_close_def Let_def split: option.splits prod.splits)




















lemma close_effects:
  "effects (fst (close en s)) =
     effects s
     @ (case ws s of
          None \<Rightarrow> []
        | Some rs \<Rightarrow>
            (if rs = OPEN
             then Send EndOfAudio # (if sendThrows en = None then [CloseSocket] else [])
             else [CloseSocket]))
     @ [RemoveAllListeners]"
  by (simp add: close_def close_try_def removeAllListeners_def record_effect_def ws_send_def
      ws_close_def Let_def split: option.splits prod.splits)

section \<open>Rounding: supporting lemmas\<close>

lemma rte_near:
  assumes "\<bar>y - of_int n\<bar> < 1 / 2"
  shows "round_ties_even y = n"
proof (cases "of_int n \<le> y")
  case True
  then have f: "\<lfloor>y\<rfloor> = n" using assms by (intro floor_unique) auto
  show ?thesis using assms True by (simp add: round_ties_even_def f Let_def)
next
  case False
  then have f: "\<lfloor>y\<rfloor> = n - 1" using assms by (intro floor_unique) auto
  show ?thesis using assms False by (simp add: round_ties_even_def f Let_def)
qed

lemma rte_int: "round_ties_even (of_int n) = n"
  by (rule rte_near) simp

lemma rte_tie_even:
  assumes "even n"
  shows "round_ties_even (of_int n - 1 / 2) = n"
proof -
  have f: "\<lfloor>(of_int n :: rat) - 1 / 2\<rfloor> = n - 1" by (intro floor_unique) auto
  show ?thesis using assms by (simp add: round_ties_even_def f Let_def)
qed

lemma rte_error: "\<bar>of_int (round_ties_even y) - y\<bar> \<le> 1 / 2"
proof -
  have "of_int \<lfloor>y\<rfloor> \<le> y" and "y < of_int \<lfloor>y\<rfloor> + 1" by linarith+
  then show ?thesis by (auto simp add: round_ties_even_def Let_def)
qed

lemma powi_pos: "(0::rat) < 2 powi e"
  by simp

lemma powi_mono: "a \<le> b \<Longrightarrow> (2::rat) powi a \<le> 2 powi b"
  by (rule power_int_increasing) simp_all

lemma powi_less_exp: "(2::rat) powi a < 2 powi b \<Longrightarrow> a < b"
  using powi_mono [of b a] by (cases "a < b") auto

lemma ilog2_bounds:
  assumes "0 < x"
  shows "2 powi (ilog2 x) \<le> x \<and> x < 2 powi (ilog2 x + 1)"
proof -
  obtain p q where pq: "quotient_of x = (p, q)" by (cases "quotient_of x")
  have q: "0 < q" using pq by (rule quotient_of_denom_pos)
  have x: "x = of_int p / of_int q" using pq by (rule quotient_of_div)
  have p: "0 < p" using assms q x by (simp add: zero_less_divide_iff)
  define a where "a = bitlen p"
  define b where "b = bitlen q"
  have a1: "1 \<le> a" and b1: "1 \<le> b"
    using p q bitlen_eq_zero_iff [of p] bitlen_eq_zero_iff [of q] bitlen_nonneg [of p]
      bitlen_nonneg [of q]
    by (auto simp add: a_def b_def)
  have pa: "(2::rat) powi (a - 1) \<le> of_int p" "(of_int p :: rat) < 2 powi a"
  proof -
    have "2 ^ nat (a - 1) \<le> p" "p < 2 ^ nat a"
      using bitlen_bounds [OF p] by (simp_all add: a_def)
    then have "(of_int (2 ^ nat (a - 1)) :: rat) \<le> of_int p" "(of_int p :: rat) < of_int (2 ^ nat a)"
      by (simp_all only: of_int_le_iff of_int_less_iff)
    then show "(2::rat) powi (a - 1) \<le> of_int p" "(of_int p :: rat) < 2 powi a"
      using a1 by (simp_all add: power_int_def)
  qed
  have qb: "(2::rat) powi (b - 1) \<le> of_int q" "(of_int q :: rat) < 2 powi b"
  proof -
    have "2 ^ nat (b - 1) \<le> q" "q < 2 ^ nat b"
      using bitlen_bounds [OF q] by (simp_all add: b_def)
    then have "(of_int (2 ^ nat (b - 1)) :: rat) \<le> of_int q" "(of_int q :: rat) < of_int (2 ^ nat b)"
      by (simp_all only: of_int_le_iff of_int_less_iff)
    then show "(2::rat) powi (b - 1) \<le> of_int q" "(of_int q :: rat) < 2 powi b"
      using b1 by (simp_all add: power_int_def)
  qed
  have qpos: "(0::rat) < of_int q" using q by simp
  have lo: "2 powi (a - b - 1) < x"
  proof -
    have "2 powi (a - b - 1) * (of_int q :: rat) < 2 powi (a - b - 1) * 2 powi b"
      using qb(2) by (intro mult_strict_left_mono) simp_all
    also have "\<dots> = 2 powi (a - 1)"
      by (simp flip: power_int_add)
    also have "\<dots> \<le> of_int p" by (rule pa(1))
    finally have "2 powi (a - b - 1) * (of_int q :: rat) < of_int p" .
    then show ?thesis using qpos by (simp add: x pos_less_divide_eq)
  qed
  have hi: "x < 2 powi (a - b + 1)"
  proof -
    have "(of_int p :: rat) < 2 powi a" by (rule pa(2))
    also have "\<dots> = 2 powi (a - b + 1) * 2 powi (b - 1)"
      by (simp flip: power_int_add)
    also have "\<dots> \<le> 2 powi (a - b + 1) * of_int q"
      using qb(1) by (intro mult_left_mono) simp_all
    finally have "(of_int p :: rat) < 2 powi (a - b + 1) * of_int q" .
    then show ?thesis using qpos by (simp add: x pos_divide_less_eq)
  qed
  have i: "ilog2 x = (if 2 powi (a - b) \<le> x then a - b else a - b - 1)"
    by (simp add: ilog2_def pq a_def b_def Let_def)
  show ?thesis
  proof (cases "2 powi (a - b) \<le> x")
    case True
    then show ?thesis using hi i by simp
  next
    case False
    then show ?thesis using lo i by simp
  qed
qed

lemma ilog2_unique:
  assumes "2 powi e \<le> x" and "x < 2 powi (e + 1)"
  shows "ilog2 x = e"
proof -
  have "0 < x" using assms(1) powi_pos [of e] by linarith
  then have b: "2 powi (ilog2 x) \<le> x" "x < 2 powi (ilog2 x + 1)"
    using ilog2_bounds by simp_all
  have "2 powi e < (2::rat) powi (ilog2 x + 1)" using assms(1) b(2) by linarith
  then have 1: "e < ilog2 x + 1" by (rule powi_less_exp)
  have "2 powi (ilog2 x) < (2::rat) powi (e + 1)" using assms(2) b(1) by linarith
  then have 2: "ilog2 x < e + 1" by (rule powi_less_exp)
  show ?thesis using 1 2 by simp
qed

lemma round_binary_binade:
  assumes "2 powi e \<le> x" and "x < 2 powi (e + 1)" and "emin \<le> e"
  shows "round_binary p emin x
         = of_int (round_ties_even (x / 2 powi (e - p + 1))) * 2 powi (e - p + 1)"
proof -
  have x: "0 < x" using assms(1) powi_pos [of e] by linarith
  have "ilog2 \<bar>x\<bar> = e" using assms(1,2) x by (simp add: ilog2_unique)
  then show ?thesis using x assms(3) by (simp add: round_binary_def Let_def max_def)
qed

lemma fl_error:
  assumes "2 powi e \<le> x" and "x < 2 powi (e + 1)" and "- 1022 \<le> e"
  shows "\<bar>fl x - x\<bar> \<le> 2 powi (e - 53)"
proof -
  define u :: rat where "u = 2 powi (e - 52)"
  have u: "0 < u" by (simp add: u_def)
  have f: "fl x = of_int (round_ties_even (x / u)) * u"
    using round_binary_binade [OF assms, of 53] by (simp add: fl_def u_def)
  have "\<bar>of_int (round_ties_even (x / u)) - x / u\<bar> * u \<le> 1 / 2 * u"
    using rte_error [of "x / u"] u by (intro mult_right_mono) simp_all
  moreover have "\<bar>of_int (round_ties_even (x / u)) - x / u\<bar> * u = \<bar>fl x - x\<bar>"
  proof -
    have "\<bar>of_int (round_ties_even (x / u)) - x / u\<bar> * u
        = \<bar>(of_int (round_ties_even (x / u)) - x / u) * u\<bar>"
      using u by (simp add: abs_mult)
    also have "(of_int (round_ties_even (x / u)) - x / u) * u = fl x - x"
      using u by (simp add: f left_diff_distrib)
    finally show ?thesis .
  qed
  moreover have "1 / 2 * u = 2 powi (e - 53)"
  proof -
    have "(2::rat) powi ((e - 53) + 1) = 2 powi (e - 53) * 2 powi 1"
      by (rule power_int_add) simp
    moreover have "(e - 53) + 1 = e - 52" by simp
    ultimately show ?thesis by (simp add: u_def)
  qed
  ultimately show ?thesis by simp
qed

lemma fl_of_int:
  assumes "\<bar>n\<bar> < 2 ^ 53"
  shows "fl (of_int n) = of_int n"
proof (cases "n = 0")
  case True
  then show ?thesis by (simp add: fl_def round_binary_def)
next
  case False
  define x :: rat where "x = \<bar>of_int n\<bar>"
  define e where "e = ilog2 x"
  have x1: "1 \<le> x"
  proof -
    have "1 \<le> \<bar>n\<bar>" using False by simp
    then have "(of_int 1 :: rat) \<le> of_int \<bar>n\<bar>" by (simp only: of_int_le_iff)
    then show ?thesis by (simp add: x_def)
  qed
  have x2: "x < 2 powi 53"
  proof -
    have "(of_int \<bar>n\<bar> :: rat) < of_int (2 ^ 53)" using assms by (simp only: of_int_less_iff)
    then show ?thesis by (simp add: x_def)
  qed
  have b: "2 powi e \<le> x" "x < 2 powi (e + 1)"
    using ilog2_bounds [of x] x1 by (simp_all add: e_def)
  have "(2::rat) powi 0 < 2 powi (e + 1)" using x1 b(2) by simp
  then have e0: "0 \<le> e" using powi_less_exp [of 0 "e + 1"] by simp
  have "(2::rat) powi e < 2 powi 53" using x2 b(1) by linarith
  then have e52: "e \<le> 52" using powi_less_exp [of e 53] by simp
  define k where "k = nat (52 - e)"
  have u: "(2::rat) powi (e - 52) = 1 / 2 ^ k"
  proof -
    have "(2::rat) powi (e - 52) = 2 powi (- int k)" using e52 by (simp add: k_def)
    then show ?thesis by (simp add: power_int_minus_divide)
  qed
  have d: "of_int n / (2::rat) powi (e - 52) = of_int (n * 2 ^ k)"
    by (simp add: u)
  have "fl (of_int n) = of_int (round_ties_even (of_int n / 2 powi (e - 52))) * 2 powi (e - 52)"
    using False e0 by (simp add: fl_def round_binary_def Let_def e_def x_def max_def)
  also have "\<dots> = of_int (n * 2 ^ k) * 2 powi (e - 52)"
    by (simp only: d rte_int)
  also have "\<dots> = of_int n"
    by (simp add: u)
  finally show ?thesis .
qed

lemma fl_of_nat: "n < 2 ^ 53 \<Longrightarrow> fl (of_nat n) = of_nat n"
proof -
  assume a: "n < 2 ^ 53"
  have "int n < 2 ^ 53" using a by (metis of_nat_less_iff of_nat_numeral of_nat_power)
  then have "fl (of_int (int n)) = of_int (int n)" by (intro fl_of_int) simp
  then show ?thesis by simp
qed

lemma ratio_is_ratio_value: "fl (TARGET_SAMPLE_RATE / INPUT_SAMPLE_RATE) = ratio_value"
  by code_simp

lemma ratio_value_alt: "ratio_value = 2 / 3 - 1 / (3 * 2 ^ 53)"
  by (simp add: ratio_value_def)

lemma nat_binade:
  assumes "0 < (n::nat)"
  obtains k where "2 ^ k \<le> n" and "n < 2 ^ (k + 1)"
proof -
  define e where "e = ilog2 (of_nat n)"
  have p: "(0::rat) < of_nat n" using assms by simp
  have b: "2 powi e \<le> (of_nat n :: rat)" "(of_nat n :: rat) < 2 powi (e + 1)"
    using ilog2_bounds [OF p] by (simp_all add: e_def)
  have "(1::rat) \<le> of_nat n" using assms by simp
  then have "(2::rat) powi 0 < 2 powi (e + 1)" using b(2) by simp
  then have e0: "0 \<le> e" using powi_less_exp [of 0 "e + 1"] by simp
  define k where "k = nat e"
  have ek: "e = int k" using e0 by (simp add: k_def)
  have p1: "(2::rat) powi e = 2 ^ k" by (simp add: ek)
  have "e + 1 = int (k + 1)" by (simp add: ek)
  then have p2: "(2::rat) powi (e + 1) = 2 ^ (k + 1)" by (simp only: power_int_of_nat)
  have "(2::rat) ^ k \<le> of_nat n" "(of_nat n :: rat) < 2 ^ (k + 1)"
    using b by (simp_all only: p1 p2)
  then have "(of_nat (2 ^ k) :: rat) \<le> of_nat n" "(of_nat n :: rat) < of_nat (2 ^ (k + 1))"
    by simp_all
  then have "2 ^ k \<le> n" "n < 2 ^ (k + 1)"
    by (simp_all only: of_nat_le_iff of_nat_less_iff)
  then show ?thesis using that by blast
qed

lemma powi_neg_nat: "(2::rat) powi (- int j) = 1 / 2 ^ j"
  by (simp add: power_int_minus_divide)

lemma fl_binade_nat:
  assumes "2 ^ k \<le> x" and "x < 2 ^ (k + 1)" and "k \<le> 52"
  shows "fl x = of_int (round_ties_even (x * 2 ^ (52 - k))) / 2 ^ (52 - k)"
proof -
  have p1: "(2::rat) powi (int k) = 2 ^ k" by simp
  have "int k + 1 = int (k + 1)" by simp
  then have p2: "(2::rat) powi (int k + 1) = 2 ^ (k + 1)" by (simp only: power_int_of_nat)
  have "int k - 53 + 1 = - int (52 - k)" using assms(3) by simp
  then have u: "(2::rat) powi (int k - 53 + 1) = 1 / 2 ^ (52 - k)"
    by (simp only: powi_neg_nat)
  have b1: "2 powi (int k) \<le> x" using assms(1) by (simp only: p1)
  have b2: "x < 2 powi (int k + 1)" using assms(2) by (simp only: p2)
  have b3: "- 1022 \<le> int k" by simp
  have "fl x = of_int (round_ties_even (x / 2 powi (int k - 53 + 1))) * 2 powi (int k - 53 + 1)"
    unfolding fl_def using b1 b2 b3 by (rule round_binary_binade)
  then have "fl x = of_int (round_ties_even (x / (1 / 2 ^ (52 - k)))) * (1 / 2 ^ (52 - k))"
    by (simp only: u)
  moreover have "x / (1 / 2 ^ (52 - k)) = x * 2 ^ (52 - k)" by simp
  ultimately show ?thesis by (simp only: times_divide_eq_right mult_1_right)
qed

lemma power_two_split:
  assumes "k \<le> 52"
  shows "(2::rat) ^ (52 - k) * 2 ^ (k + 1) = 2 ^ 53"
proof -
  have e: "(52 - k) + (k + 1) = 53" using assms by simp
  show ?thesis unfolding power_add [symmetric] e ..
qed

lemma product_multiple_of_three:
  assumes "0 < m" and "m \<le> 2 ^ 50"
  shows "fl (of_nat (3 * m) * ratio_value) = of_nat (2 * m)"
proof -
  define M :: rat where "M = of_nat m"
  have M0: "0 < M" using assms(1) by (simp add: M_def)
  have "(of_nat m :: rat) \<le> of_nat (2 ^ 50)" using assms(2) by (simp only: of_nat_le_iff)
  then have M50: "M \<le> 2 ^ 50" by (simp add: M_def)
  define x :: rat where "x = of_nat (3 * m) * ratio_value"
  have x: "x = 2 * M - M / 2 ^ 53"
    by (simp add: x_def M_def ratio_value_def)
  have "0 < 2 * m - 1" using assms(1) by simp
  then obtain k where k: "2 ^ k \<le> 2 * m - 1" "2 * m - 1 < 2 ^ (k + 1)"
    by (rule nat_binade)
  have le: "2 * m \<le> 2 ^ (k + 1)" using k(2) by simp
  have "(2::nat) ^ k < 2 ^ 53"
  proof -
    have "2 * m - 1 < (2::nat) ^ 53" using assms(2) by simp
    then show ?thesis using k(1) by simp
  qed
  then have "k < 53" by (rule power_less_imp_less_exp [rotated]) simp
  then have k52: "k \<le> 52" by simp
  define P :: rat where "P = 2 ^ (52 - k)"
  define Q :: rat where "Q = 2 ^ (k + 1)"
  have P0: "0 < P" and Q0: "0 < Q" by (simp_all add: P_def Q_def)
  have PQ: "P * Q = 2 ^ 53" unfolding P_def Q_def using k52 by (rule power_two_split)
  have leQ: "2 * M \<le> Q"
  proof -
    have "(of_nat (2 * m) :: rat) \<le> of_nat (2 ^ (k + 1))" using le by (simp only: of_nat_le_iff)
    then show ?thesis by (simp add: M_def Q_def)
  qed
  have geK: "2 ^ k \<le> 2 * M - 1"
  proof -
    have "2 ^ k + 1 \<le> 2 * m" using k(1) assms(1) by simp
    then have "(of_nat (2 ^ k + 1) :: rat) \<le> of_nat (2 * m)" by (simp only: of_nat_le_iff)
    then show ?thesis by (simp add: M_def)
  qed
  have small: "M / 2 ^ 53 \<le> 1" "0 < M / 2 ^ 53"
    using M50 M0 by simp_all
  have b1: "2 ^ k \<le> x" using geK small(1) unfolding x by linarith
  have b2: "x < 2 ^ (k + 1)" using leQ small(2) unfolding x Q_def by linarith
  have f: "fl x = of_int (round_ties_even (x * P)) / P"
    unfolding P_def using b1 b2 k52 by (rule fl_binade_nat)
  define n :: int where "n = int (2 * m * 2 ^ (52 - k))"
  have n: "of_int n = 2 * M * P" by (simp add: n_def M_def P_def)
  have xP: "x * P = of_int n - M / Q"
  proof -
    have "M / 2 ^ 53 * P = M / (P * Q) * P" by (simp only: PQ)
    also have "\<dots> = M / Q" using P0 Q0 by simp
    finally have "M / 2 ^ 53 * P = M / Q" .
    then show ?thesis unfolding x n by (simp only: left_diff_distrib)
  qed
  have r: "round_ties_even (x * P) = n"
  proof (cases "2 * M = Q")
    case True
    then have h: "M / Q = 1 / 2" using Q0 by (simp add: field_simps)
    have "(of_nat (2 * m) :: rat) = of_nat (2 ^ (k + 1))" using True by (simp add: M_def Q_def)
    then have "2 * m = 2 ^ (k + 1)" by (simp only: of_nat_eq_iff)
    then have "n = int (2 ^ (k + 1) * 2 ^ (52 - k))" unfolding n_def by (simp only:)
    then have "even n" by simp
    then show ?thesis unfolding xP h by (rule rte_tie_even)
  next
    case False
    then have "2 * M < Q" using leQ by simp
    then have "M / Q < 1 / 2" using Q0 by (simp add: field_simps)
    moreover have "0 < M / Q" using M0 Q0 by simp
    ultimately have "\<bar>x * P - of_int n\<bar> < 1 / 2" unfolding xP by simp
    then show ?thesis by (rule rte_near)
  qed
  have "fl x = 2 * M * P / P" unfolding f r n ..
  then have "fl x = 2 * M" using P0 by simp
  then show ?thesis unfolding x_def M_def by simp
qed

lemma fl_error_small:
  assumes "1 / 2 \<le> x" and "x < 2 ^ 50"
  shows "\<bar>fl x - x\<bar> \<le> 1 / 16"
proof -
  define e where "e = ilog2 x"
  have x0: "0 < x" using assms(1) by simp
  have b: "2 powi e \<le> x" "x < 2 powi (e + 1)"
    using ilog2_bounds [OF x0] by (simp_all add: e_def)
  have "(2::rat) powi (- 1) < 2 powi (e + 1)" using assms(1) b(2) by simp
  then have "- 1 < e + 1" by (rule powi_less_exp)
  then have lo: "- 1022 \<le> e" by simp
  have "(2::rat) powi e < 2 powi 50" using assms(2) b(1) by simp
  then have "e < 50" by (rule powi_less_exp)
  then have "e - 53 \<le> - 4" by simp
  then have "(2::rat) powi (e - 53) \<le> 2 powi (- 4)" by (rule powi_mono)
  then have "(2::rat) powi (e - 53) \<le> 1 / 16" by simp
  moreover have "\<bar>fl x - x\<bar> \<le> 2 powi (e - 53)" using b lo by (rule fl_error)
  ultimately show ?thesis by linarith
qed

lemma product_other:
  assumes "N \<le> 2 ^ 50" and "2 * N mod 3 \<noteq> 0"
  shows "\<lfloor>fl (of_nat N * ratio_value)\<rfloor> = int (2 * N div 3)"
proof -
  define a :: rat where "a = of_nat N"
  define q :: rat where "q = of_nat (2 * N div 3)"
  define r :: rat where "r = of_nat (2 * N mod 3)"
  define x :: rat where "x = of_nat N * ratio_value"
  have N0: "0 < N" using assms(2) by (cases "N = 0") simp_all
  have a1: "1 \<le> a" using N0 by (simp add: a_def)
  have "(of_nat N :: rat) \<le> of_nat (2 ^ 50)" using assms(1) by (simp only: of_nat_le_iff)
  then have a50: "a \<le> 2 ^ 50" by (simp add: a_def)
  have "2 * N mod 3 = 1 \<or> 2 * N mod 3 = 2" using assms(2) by presburger
  then have r: "r = 1 \<or> r = 2" by (auto simp add: r_def)
  have "(of_nat (2 * N) :: rat) = of_nat (3 * (2 * N div 3) + 2 * N mod 3)"
    by (simp only: mult_div_mod_eq)
  then have d: "2 * a = 3 * q + r"
    unfolding a_def q_def r_def by (simp only: of_nat_add of_nat_mult of_nat_numeral)
  have x: "x = 2 * a / 3 - a / (3 * 2 ^ 53)"
    by (simp add: x_def a_def ratio_value_def)
  have t: "a / (3 * 2 ^ 53) \<le> 1 / 24" "0 < a / (3 * 2 ^ 53)"
    using a50 a1 by simp_all
  have xq: "x = q + r / 3 - a / (3 * 2 ^ 53)"
    unfolding x using d by simp
  have lo: "q + 1 / 3 - 1 / 24 \<le> x" and hi: "x < q + 2 / 3"
    using r t unfolding xq by auto
  have q0: "0 \<le> q" by (simp add: q_def)
  have "1 / 2 \<le> x" using a1 unfolding x by simp
  moreover have "x < 2 ^ 50"
  proof -
    have "x < a" using x a1 t(2) by linarith
    then show ?thesis using a50 by linarith
  qed
  ultimately have "\<bar>fl x - x\<bar> \<le> 1 / 16" by (rule fl_error_small)
  then have "q \<le> fl x" "fl x < q + 1" using lo hi by linarith+
  then have "of_int (int (2 * N div 3)) \<le> fl x" "fl x < of_int (int (2 * N div 3)) + 1"
    by (simp_all add: q_def)
  then have "\<lfloor>fl x\<rfloor> = int (2 * N div 3)" by (rule floor_unique)
  then show ?thesis by (simp only: x_def)
qed

lemma product_floor:
  assumes "N \<le> 2 ^ 50"
  shows "\<lfloor>fl (of_nat N * ratio_value)\<rfloor> = int (2 * N div 3)"
proof (cases "2 * N mod 3 = 0")
  case False
  with assms show ?thesis by (rule product_other)
next
  case True
  then have "\<exists>m. N = 3 * m" by presburger
  then obtain m where m: "N = 3 * m" by blast
  show ?thesis
  proof (cases "m = 0")
    case True
    then show ?thesis by (simp add: m fl_def round_binary_def)
  next
    case False
    then have "0 < m" by simp
    moreover have "m \<le> 2 ^ 50" using assms m by simp
    ultimately have "fl (of_nat (3 * m) * ratio_value) = of_nat (2 * m)"
      by (rule product_multiple_of_three)
    then have "\<lfloor>fl (of_nat N * ratio_value)\<rfloor> = \<lfloor>(of_nat (2 * m) :: rat)\<rfloor>"
      by (simp only: m)
    also have "\<dots> = int (2 * m)" by (rule floor_of_nat)
    also have "2 * m = 2 * N div 3" by (simp add: m)
    finally show ?thesis .
  qed
qed

lemma source_index:
  assumes "i \<le> 2 ^ 50"
  shows "fl (of_nat i / ratio_value) = of_nat (3 * i) / 2"
proof (cases "i = 0")
  case True
  then show ?thesis by (simp add: fl_def round_binary_def)
next
  case False
  define T :: rat where "T = of_nat (3 * i)"
  define D :: rat where "D = 18014398509481983"
  define x :: rat where "x = of_nat i / ratio_value"
  have D0: "0 < D" by (simp add: D_def)
  have D1: "D + 1 = 2 ^ 54" by (simp add: D_def)
  have x: "x = T * 2 ^ 53 / D"
    by (simp add: x_def T_def D_def ratio_value_def)
  have i0: "0 < 3 * i" using False by simp
  then obtain k where k: "2 ^ k \<le> 3 * i" "3 * i < 2 ^ (k + 1)"
    by (rule nat_binade)
  have "(2::nat) ^ 1 < 2 ^ (k + 1)"
  proof -
    have "(2::nat) ^ 1 < 3 * i" using False by simp
    then show ?thesis using k(2) by simp
  qed
  then have "1 < k + 1" by (rule power_less_imp_less_exp [rotated]) simp
  then obtain kk where kk: "k = kk + 1" by (cases k) simp_all
  have "(2::nat) ^ k < 2 ^ 52"
  proof -
    have "3 * i < (2::nat) ^ 52" using assms by simp
    then show ?thesis using k(1) by simp
  qed
  then have "k < 52" by (rule power_less_imp_less_exp [rotated]) simp
  then have kk52: "kk \<le> 52" and k52: "k \<le> 52" using kk by simp_all
  define P :: rat where "P = 2 ^ (52 - kk)"
  have P0: "0 < P" by (simp add: P_def)
  have "52 - kk = (52 - k) + 1" using kk \<open>k < 52\<close> by simp
  then have P2: "P = 2 ^ (52 - k) * 2" unfolding P_def by (simp only: power_add power_one_right)
  have "(2::rat) ^ (52 - kk) * 2 ^ (kk + 1) = 2 ^ 53" using kk52 by (rule power_two_split)
  then have PK: "P * 2 ^ k = 2 ^ 53" unfolding P_def kk .
  define n :: int where "n = int (3 * i * 2 ^ (52 - k))"
  have n: "of_int n = T * P / 2" unfolding P2 by (simp add: n_def T_def)
  have Tlo: "2 ^ k \<le> T"
  proof -
    have "(of_nat (2 ^ k) :: rat) \<le> of_nat (3 * i)" using k(1) by (simp only: of_nat_le_iff)
    then show ?thesis by (simp add: T_def)
  qed
  have Thi: "T + 1 \<le> 2 * 2 ^ k"
  proof -
    have "3 * i + 1 \<le> 2 ^ (k + 1)" using k(2) by simp
    then have "(of_nat (3 * i + 1) :: rat) \<le> of_nat (2 ^ (k + 1))" by (simp only: of_nat_le_iff)
    then show ?thesis by (simp add: T_def)
  qed
  have nhi: "of_int n + 1 \<le> (2::rat) ^ 53"
  proof -
    have "(T + 1) * (P / 2) \<le> 2 * 2 ^ k * (P / 2)"
      using Thi P0 by (intro mult_right_mono) simp_all
    also have "\<dots> = P * 2 ^ k" by simp
    also have "\<dots> = 2 ^ 53" by (rule PK)
    finally have "(T + 1) * (P / 2) \<le> 2 ^ 53" .
    moreover have "1 \<le> P / 2" unfolding P2 by simp
    ultimately show ?thesis unfolding n by (simp add: distrib_right)
  qed
  have n0: "(0::rat) < of_int n"
  proof -
    have "0 < T" using i0 by (simp add: T_def)
    then show ?thesis unfolding n using P0 by simp
  qed
  have xP: "x * P = of_int n + of_int n / D"
  proof -
    have "x * P = (T * P / 2) * 2 ^ 54 / D" unfolding x by simp
    also have "\<dots> = of_int n * (D + 1) / D" by (simp only: n D1)
    also have "\<dots> = of_int n + of_int n / D" using D0 by (simp add: field_simps)
    finally show ?thesis .
  qed
  have frac: "0 < of_int n / D" "of_int n / D < 1 / 2"
  proof -
    show "0 < of_int n / D" using n0 D0 by simp
    have "2 * of_int n < D" using nhi unfolding D_def by simp
    then show "of_int n / D < 1 / 2" using D0 by (simp add: field_simps)
  qed
  have b1: "2 ^ kk \<le> x"
  proof -
    have "2 * (2::rat) ^ kk = 2 ^ k" unfolding kk by simp
    then have "2 ^ kk \<le> T / 2" using Tlo by simp
    moreover have "T / 2 \<le> x"
    proof -
      have "0 \<le> of_int n / D" using frac(1) by simp
      then have "T * P / 2 \<le> x * P" unfolding xP n by simp
      then have "T / 2 * P \<le> x * P" by simp
      then show ?thesis using P0 by (simp only: mult_le_cancel_right_pos)
    qed
    ultimately show ?thesis by simp
  qed
  have b2: "x < 2 ^ (kk + 1)"
  proof -
    have "x * P < 2 ^ 53" using nhi frac(2) unfolding xP by linarith
    then have "x * P < 2 ^ k * P" using PK by (simp add: mult.commute)
    then have "x < 2 ^ k" using P0 by (simp only: mult_less_cancel_right_pos)
    then show ?thesis unfolding kk .
  qed
  have f: "fl x = of_int (round_ties_even (x * P)) / P"
    unfolding P_def using b1 b2 kk52 by (rule fl_binade_nat)
  have "\<bar>x * P - of_int n\<bar> < 1 / 2" unfolding xP using frac by simp
  then have r: "round_ties_even (x * P) = n" by (rule rte_near)
  have "fl x = T * P / 2 / P" unfolding f r n ..
  then have "fl x = T / 2" using P0 by simp
  then show ?thesis unfolding x_def T_def .
qed

section \<open>The resampler: supporting lemmas\<close>

lemma readInt16LE_in_range:
  assumes "off + 1 < length buf"
  shows "\<exists>a. readInt16LE buf (of_nat off) = Inr a"
  using assms by (simp add: readInt16LE_def Let_def)

lemma interpolate_in_range:
  assumes "length buf = 2 * N" and "N \<le> 2 ^ 50" and "i < 2 * N div 3"
  shows "\<exists>v. interpolate buf (of_nat N) ratio_value i = Inr v"
proof -
  define a0 where "a0 = 3 * i div 2"
  define a1 where "a1 = min (a0 + 1) (N - 1)"
  have i50: "i \<le> 2 ^ 50" using assms(2,3) by simp
  have N1: "1 \<le> N" using assms(3) by (cases N) simp_all
  have r0: "a0 < N" using assms(3) unfolding a0_def by presburger
  have r1: "a1 < N" using N1 unfolding a1_def by simp
  have small: "a0 + 1 < 2 ^ 53" "N - 1 < 2 ^ 53" "2 * a0 < 2 ^ 53" "2 * a1 < 2 ^ 53"
    using r0 r1 assms(2) by simp_all
  have s: "fl (of_nat i / ratio_value) = of_nat (3 * i) / 2"
    using i50 by (rule source_index)
  have "\<lfloor>(of_nat (3 * i) :: rat) / of_nat 2\<rfloor> = of_nat (3 * i div 2)"
    by (rule floor_divide_of_nat_eq)
  then have f: "\<lfloor>(of_nat (3 * i) :: rat) / 2\<rfloor> = int a0" by (simp add: a0_def)
  have c1: "(of_int (int a0) + 1 :: rat) = of_nat (a0 + 1)" by simp
  have e1: "fl (of_int (int a0) + 1) = of_nat (a0 + 1)"
    unfolding c1 using small(1) by (rule fl_of_nat)
  have c2: "(of_nat N - 1 :: rat) = of_nat (N - 1)" using N1 by (simp add: of_nat_diff)
  have e2: "fl (of_nat N - 1) = of_nat (N - 1)"
    unfolding c2 using small(2) by (rule fl_of_nat)
  have c3: "(of_int (int a0) * 2 :: rat) = of_nat (2 * a0)" by simp
  have e3: "fl (of_int (int a0) * 2) = of_nat (2 * a0)"
    unfolding c3 using small(3) by (rule fl_of_nat)
  have m: "min (of_nat (a0 + 1)) (of_nat (N - 1)) = (of_nat a1 :: rat)"
    unfolding a1_def by (simp add: min_def)
  have c4: "(of_nat a1 * 2 :: rat) = of_nat (2 * a1)" by simp
  have e4: "fl (of_nat a1 * 2) = of_nat (2 * a1)"
    unfolding c4 using small(4) by (rule fl_of_nat)
  have "2 * a0 + 1 < length buf" using r0 assms(1) by simp
  then obtain x where x: "readInt16LE buf (of_nat (2 * a0)) = Inr x"
    using readInt16LE_in_range by blast
  have "2 * a1 + 1 < length buf" using r1 assms(1) by simp
  then obtain y where y: "readInt16LE buf (of_nat (2 * a1)) = Inr y"
    using readInt16LE_in_range by blast
  show ?thesis
    unfolding interpolate_def Let_def s f e1 e2 e3 m e4 x y by simp
qed

lemma resample_loop_total:
  assumes "\<And>j. i \<le> j \<Longrightarrow> j < m \<Longrightarrow> \<exists>v. interpolate buf nIn r j = Inr v"
  shows "\<exists>out. resample_loop buf nIn r m i f = Inr out \<and> length out = length f"
  using assms
proof (induction "m - i" arbitrary: i f)
  case 0
  then have "\<not> i < m" by simp
  then show ?case by (subst resample_loop.simps) simp
next
  case (Suc d)
  then have lt: "i < m" by simp
  then obtain v where v: "interpolate buf nIn r i = Inr v"
    using Suc.prems [of i] by auto
  have "d = m - Suc i" using Suc.hyps(2) by simp
  moreover have "\<And>j. Suc i \<le> j \<Longrightarrow> j < m \<Longrightarrow> \<exists>v. interpolate buf nIn r j = Inr v"
    using Suc.prems by simp
  ultimately have "\<exists>out. resample_loop buf nIn r m (Suc i) (f[i := v]) = Inr out
      \<and> length out = length (f[i := v])"
    by (rule Suc.hyps(1))
  then show ?case using lt v by (subst resample_loop.simps) simp
qed

lemma resample_length:
  assumes "length buf = 2 * N" and "N \<le> 2 ^ 50"
  shows "\<exists>out. resampleAndConvertToFloat32 buf = Inr out \<and> length out = 2 * N div 3"
proof -
  have n: "fl (of_nat (length buf) / 2) = of_nat N"
  proof -
    have "N < 2 ^ 53" using assms(2) by simp
    then have "fl (of_nat N) = of_nat N" by (rule fl_of_nat)
    then show ?thesis by (simp add: assms(1))
  qed
  have o: "nat \<lfloor>fl (of_nat N * ratio_value)\<rfloor> = 2 * N div 3"
    using product_floor [OF assms(2)] by simp
  have "\<exists>out. resample_loop buf (of_nat N) ratio_value (2 * N div 3) 0
            (replicate (2 * N div 3) 0) = Inr out
        \<and> length out = length (replicate (2 * N div 3) (0::rat))"
    by (rule resample_loop_total) (rule interpolate_in_range [OF assms], simp)
  then show ?thesis
    unfolding resampleAndConvertToFloat32_def Let_def n ratio_is_ratio_value o by simp
qed

lemma rate_quotient: "N * 16000 div 24000 = 2 * N div (3::nat)"
proof -
  have "(2 * N) * 8000 div (3 * 8000) = 2 * N div (3::nat)"
    by (rule div_mult_mult2) simp
  moreover have "(2 * N) * 8000 = N * 16000" by simp
  moreover have "3 * 8000 = (24000::nat)" by simp
  ultimately show ?thesis by (simp only:)
qed

section \<open>The claims\<close>

subsection \<open>C1: replayed segment lists and Scenario B\<close>

text \<open>
  C1. When a message reaches the reconciler (\<open>handleServerMessage\<close>) and the next segments
  message carries the same list of completed segments, the second message emits no
  transcription event. For the two messages of Scenario B, processed by a new session,
  the transcription events emitted are exactly two, with the texts "hi" and "there" in
  this order, so "hi" is emitted once.
\<close>

theorem replayed_list_emits_nothing:
  assumes "reaches_reconciler m1" and "segments m1 = Some l1" and "segments m2 = Some l2"
    and "filter completed l2 = filter completed l1"
  shows "transcriptions (effects (handleServerMessage en2 (handleServerMessage en1 s m1) m2))
           = transcriptions (effects (handleServerMessage en1 s m1))
    \<and> map t_text (transcriptions (effects
          (handleServerMessage en2
             (handleServerMessage en1 (new_session mo sid li) scenario_B_first)
             scenario_B_second)))
        = [''hi'', ''there'']"
proof -
  have "map t_text (transcriptions (effects
          (handleServerMessage en2
             (handleServerMessage en1 (new_session mo sid li) scenario_B_first)
             scenario_B_second)))
        = [''hi'', ''there'']"
    by (simp add: scenario_B_first_def scenario_B_second_def segments_message_def
        completed_segment_def handleServerMessage_def reconcile_def new_session_def trim_def
        is_ws_def emit_def record_effect_def Let_def)
  then show ?thesis using handle_same_list [OF assms] by simp
qed

text \<open>C1 at the messages of Scenario B, the second one sent twice.\<close>

theorem replayed_list_emits_nothing_witness:
  "transcriptions (effects
      (handleServerMessage quiet
         (handleServerMessage quiet (new_session [] ''s1'' True) scenario_B_second)
         scenario_B_second))
   = transcriptions (effects
      (handleServerMessage quiet (new_session [] ''s1'' True) scenario_B_second))"
proof -
  have r: "reaches_reconciler scenario_B_second"
    by (simp add: reaches_reconciler_def scenario_B_second_def segments_message_def)
  have g: "segments scenario_B_second
      = Some [completed_segment ''hi'' 0 1, completed_segment ''there'' 1 2]"
    by (simp add: scenario_B_second_def segments_message_def)
  show ?thesis
    using replayed_list_emits_nothing [OF r g g refl, of quiet quiet "new_session [] ''s1'' True"]
    by simp
qed

subsection \<open>C2: the length of the resampled buffer\<close>

text \<open>
  C2. For every input buffer that holds \<open>N\<close> 16-bit samples (\<open>2 * N\<close> bytes, \<open>N\<close> up to
  \<open>2 ^ 50\<close>), \<open>resampleAndConvertToFloat32\<close> returns, without an error, an array of exactly
  \<open>N * 16000 div 24000\<close> float samples; a buffer of 24000 samples gives 16000 samples. The
  count is computed in binary64 as \<^verbatim>\<open>Math.floor(N * (16000 / 24000))\<close>, and the rounding
  of the quotient and of the product never changes the floor.
\<close>

theorem resample_output_length:
  assumes "length pcmInt16Buffer = 2 * N" and "N \<le> 2 ^ 50"
  shows "\<exists>float32. resampleAndConvertToFloat32 pcmInt16Buffer = Inr float32
      \<and> length float32 = N * 16000 div 24000
      \<and> (N = 24000 \<longrightarrow> length float32 = 16000)"
proof -
  obtain out where out: "resampleAndConvertToFloat32 pcmInt16Buffer = Inr out"
      "length out = 2 * N div 3"
    using resample_length [OF assms] by blast
  have a: "length out = N * 16000 div 24000" unfolding rate_quotient by (rule out(2))
  have b: "N = 24000 \<longrightarrow> length out = 16000" unfolding out(2) by simp
  show ?thesis using out(1) a b by blast
qed

text \<open>C2 for one second of silence: 24000 samples in, 16000 samples out.\<close>

theorem resample_output_length_witness:
  "\<exists>float32. resampleAndConvertToFloat32 (replicate 48000 0) = Inr float32
      \<and> length float32 = 16000"
proof -
  have l: "length (replicate 48000 (0::byte)) = 2 * 24000" by simp
  have b: "(24000::nat) \<le> 2 ^ 50" by simp
  have "\<exists>float32. resampleAndConvertToFloat32 (replicate 48000 0) = Inr float32
      \<and> length float32 = 24000 * 16000 div 24000
      \<and> ((24000::nat) = 24000 \<longrightarrow> length float32 = 16000)"
    using l b by (rule resample_output_length)
  then show ?thesis by blast
qed

subsection \<open>C3: the counter over the lifetime of a session\<close>

text \<open>
  C3, as amended. Over any execution of a session, \<open>emittedCompletedCount\<close> never decreases
  from one step to the next provided that the completed lists do not shrink: each message
  that reaches the reconciler with a non-empty segment list has at least as many completed
  segments as the counter holds at the start and as the previous such message had.
\<close>

theorem counter_monotone_while_history_grows:
  assumes "sorted (emittedCompletedCount s # completed_counts tr)"
  shows "sorted (map emittedCompletedCount (states s tr))"
  using assms by (rule sorted_history)

text \<open>C3 as amended, at the two messages of Scenario B.\<close>

theorem counter_monotone_while_history_grows_witness:
  "sorted (map emittedCompletedCount
     (states (new_session [] ''s1'' True)
        [(quiet, WsMessage (Some scenario_B_first)), (quiet, WsMessage (Some scenario_B_second))]))"
proof -
  have h: "sorted (emittedCompletedCount (new_session [] ''s1'' True)
      # completed_counts
          [(quiet, WsMessage (Some scenario_B_first)),
           (quiet, WsMessage (Some scenario_B_second))])"
    by (simp add: new_session_def scenario_B_first_def scenario_B_second_def
        segments_message_def completed_segment_def reaches_reconciler_def)
  show ?thesis using counter_monotone_while_history_grows [OF h] .
qed

text \<open>
  C3 as stated fails: after a message with two completed segments the counter is 2, and a
  following message with one completed segment sets it to 1.
\<close>

theorem counter_decreases_when_history_shrinks:
  "emittedCompletedCount
     (handleServerMessage quiet
        (handleServerMessage quiet (new_session [] ''s1'' True) scenario_B_second)
        scenario_B_first)
   < emittedCompletedCount
       (handleServerMessage quiet (new_session [] ''s1'' True) scenario_B_second)"
  by (simp add: scenario_B_first_def scenario_B_second_def segments_message_def
      completed_segment_def handleServerMessage_def reconcile_def Let_def)

subsection \<open>C5: no two consecutive events with the same text\<close>

text \<open>
  C5. For every new session and every execution after \<open>initialize\<close>, whatever the inbound
  frames are, no two consecutive transcription events that the session emits carry the
  same text.
\<close>

theorem no_adjacent_repeats:
  "distinct_adj (map t_text (transcriptions (effects
      (run (initialize svc (new_session mo sid li)) tr))))"
  using no_repeat_run [OF no_repeat_start, of svc mo sid li tr] by (simp add: no_repeat_def)

subsection \<open>C6: audio before readiness and after close\<close>



subsection \<open>C7: the counter after a segments message\<close>

text \<open>
  C7, as amended. After a message that reaches the reconciler with a non-empty segment
  list, \<open>emittedCompletedCount\<close> equals the number of completed segments of that message,
  whether or not an event was emitted and also when no segment of the list is completed.
\<close>

theorem counter_is_completed_length:
  assumes "reaches_reconciler msg" and "segments msg = Some segs" and "segs \<noteq> []"
  shows "emittedCompletedCount (handleServerMessage en s msg) = length (filter completed segs)"
  using assms by (rule handle_count_reconciled)

text \<open>C7 as amended, at the first message of Scenario B.\<close>

theorem counter_is_completed_length_witness:
  "emittedCompletedCount (handleServerMessage quiet (new_session [] ''s1'' True) scenario_B_first)
     = length (filter completed [completed_segment ''hi'' 0 1])"
proof -
  have r: "reaches_reconciler scenario_B_first"
    by (simp add: reaches_reconciler_def scenario_B_first_def segments_message_def)
  have g: "segments scenario_B_first = Some [completed_segment ''hi'' 0 1]"
    by (simp add: scenario_B_first_def segments_message_def)
  have n: "[completed_segment ''hi'' 0 1] \<noteq> []"
    by simp
  show ?thesis using counter_is_completed_length [OF r g n] .
qed

text \<open>
  C7 as stated fails for a message whose segment list is empty: the guard
  \<^verbatim>\<open>msg.segments.length > 0\<close> skips the update, and the counter keeps its value 1 while the
  completed list of the message has length 0.
\<close>

theorem counter_kept_on_empty_segment_list:
  "emittedCompletedCount
     (handleServerMessage quiet
        (handleServerMessage quiet (new_session [] ''s1'' True) scenario_B_first)
        (segments_message []))
   \<noteq> length (filter completed (the (segments (segments_message []))))"
  by (simp add: scenario_B_first_def segments_message_def completed_segment_def
      handleServerMessage_def reconcile_def Let_def)

subsection \<open>C9: close\<close>

text \<open>
  C9. \<open>close\<close> raises nothing in any state of the session and whatever the transport does.
  With an open socket it sends the \<^verbatim>\<open>END_OF_AUDIO\<close> marker and then closes the socket (the
  close is skipped when the send throws, and either exception is swallowed); with no socket
  it makes no call on the transport; in every case its last effect is the removal of all
  listeners, and the session holds no socket afterwards.
\<close>

theorem close_best_effort:
  "snd (close en s) = None
   \<and> (ws s = Some OPEN \<longrightarrow>
        effects (fst (close en s)) =
          effects s @ Send EndOfAudio # (if sendThrows en = None then [CloseSocket] else [])
          @ [RemoveAllListeners])
   \<and> (ws s = None \<longrightarrow> effects (fst (close en s)) = effects s @ [RemoveAllListeners])
   \<and> last (effects (fst (close en s))) = RemoveAllListeners
   \<and> \<not> errorListeners (fst (close en s))
   \<and> ws (fst (close en s)) = None"
  by (simp add: close_effects close_fields)
    (simp add: close_def removeAllListeners_def record_effect_def Let_def)

text \<open>C9 for a session whose socket has opened, and for a new session.\<close>

theorem close_best_effort_witness:
  "effects (fst (close quiet (run (initialize up (new_session [] ''s1'' True)) [(quiet, WsOpen)])))
     = effects (run (initialize up (new_session [] ''s1'' True)) [(quiet, WsOpen)])
       @ [Send EndOfAudio, CloseSocket, RemoveAllListeners]
   \<and> effects (fst (close quiet (new_session [] ''s1'' True))) = [RemoveAllListeners]"
proof -
  have o: "ws (run (initialize up (new_session [] ''s1'' True)) [(quiet, WsOpen)]) = Some OPEN"
    by (simp add: run_def initialize_def up_def new_session_def handler_defs quiet_def Let_def)
  have n: "ws (new_session [] ''s1'' True) = None"
    by (simp add: new_session_def)
  have q: "sendThrows quiet = None"
    by (simp add: quiet_def)
  show ?thesis
    using close_best_effort [of quiet "run (initialize up (new_session [] ''s1'' True)) [(quiet, WsOpen)]"]
      close_best_effort [of quiet "new_session [] ''s1'' True"] o n q
    by (simp add: new_session_def)
qed

subsection \<open>C4: the connection timeout\<close>




subsection \<open>C8: how a failed initialization ends\<close>




subsection \<open>C10: buffers of odd length\<close>

text \<open>
  C10. The code does not truncate a trailing partial sample. For the three bytes
  \<open>00 40 00\<close> the sample count is 1.5, one output sample is produced and its value is 1/2;
  for the first two bytes alone the output is empty.
\<close>

theorem odd_length_is_not_truncated:
  "resampleAndConvertToFloat32 [0, 64, 0] = Inr [1 / 2]
   \<and> resampleAndConvertToFloat32 (take 2 [0, 64, 0]) = Inr []"
  by code_simp

end
